theory Spec2Isabelle
  imports Main "HOL-Library.Monad_Syntax"
begin

section \<open>The shared-read pair: \<open>owned_ptr\<close> and \<open>reader_ptr\<close> (owned_ptr.hpp)\<close>

text \<open>
  Objects live in a store indexed by their address (a natural number). A \<open>Type *\<close> is a
  \<open>nat option\<close>: \<open>None\<close> is \<open>nullptr\<close>, \<open>Some a\<close> the address \<open>a\<close>; likewise for the
  pointers between owners and readers. Identifiers cannot end in an underscore here, so
  the members \<open>value_\<close>, \<open>locked_\<close>, \<open>mutex_\<close>, \<open>parent_\<close> of \<open>reader_ptr\<close> are the fields
  \<open>r_value\<close>, \<open>r_locked\<close>, \<open>r_mutex\<close>, \<open>r_parent\<close>, and the members \<open>mutex_\<close>, \<open>value_\<close>,
  \<open>children_\<close>, \<open>update_\<close> of \<open>owned_ptr\<close> are \<open>o_mutex\<close>, \<open>o_value\<close>, \<open>o_children\<close>,
  \<open>o_update\<close>. A mutex is the flag "held". A member function \<open>C::f\<close> is the constant
  \<open>C_f\<close>; \<open>remove_\<close>, \<open>replace_\<close> and \<open>set_owner_\<close> are \<open>owned_ptr_remove\<close>,
  \<open>owned_ptr_replace\<close> and \<open>reader_ptr_set_owner\<close>, and the constructors and destructors
  end in \<open>ctor\<close>, \<open>copy\<close> and \<open>dtor\<close>.

  Every call runs on one thread against the store it is given: \<open>None\<close> is the result of a
  call that never returns, because it spins on a flag that nobody else changes or blocks
  on a mutex that is held. A call whose behaviour is undefined has the result
  \<open>Undefined\<close>. Calls of other threads are interleaved explicitly where a claim needs
  them (\<open>reset_run\<close> below).
\<close>

type_synonym ptr = "nat option"

datatype 'a outcome = Returns 'a | Undefined

record reader_ptr =
  r_value :: ptr
  r_locked :: ptr
  r_mutex :: bool
  r_parent :: "nat option"

record owned_ptr =
  o_mutex :: bool
  o_value :: ptr
  o_children :: "nat list"
  o_update :: "nat list"

text \<open>
  \<open>freed\<close> collects the addresses handed to \<open>delete\<close>; \<open>r_live\<close> and \<open>o_live\<close> list the
  readers and owners that are constructed and not yet destroyed.
\<close>

record heap =
  readers :: "nat \<Rightarrow> reader_ptr"
  owners :: "nat \<Rightarrow> owned_ptr"
  freed :: "nat set"
  r_live :: "nat list"
  o_live :: "nat list"

definition heap0 :: heap where
  "heap0 = \<lparr> readers = (\<lambda>_. \<lparr> r_value = None, r_locked = None, r_mutex = False, r_parent = None \<rparr>),
             owners = (\<lambda>_. \<lparr> o_mutex = False, o_value = None, o_children = [], o_update = [] \<rparr>),
             freed = {}, r_live = [], o_live = [] \<rparr>"

definition upd_reader :: "heap \<Rightarrow> nat \<Rightarrow> (reader_ptr \<Rightarrow> reader_ptr) \<Rightarrow> heap" where
  "upd_reader s r f = s\<lparr> readers := (readers s)(r := f (readers s r)) \<rparr>"

definition upd_owner :: "heap \<Rightarrow> nat \<Rightarrow> (owned_ptr \<Rightarrow> owned_ptr) \<Rightarrow> heap" where
  "upd_owner s p f = s\<lparr> owners := (owners s)(p := f (owners s p)) \<rparr>"

definition delete_value :: "heap \<Rightarrow> ptr \<Rightarrow> heap" where
  "delete_value s v = (case v of None \<Rightarrow> s | Some a \<Rightarrow> s\<lparr> freed := insert a (freed s) \<rparr>)"

text \<open>
  \<open>while (waiting) std::this_thread::yield();\<close> and a blocking \<open>mutex_.lock()\<close>: the
  thread goes on once the condition is false, and yielding does not change the store.
\<close>

partial_function (option) spin :: "('s \<Rightarrow> bool) \<Rightarrow> 's \<Rightarrow> 's option" where
  "spin waiting s = (if waiting s then spin waiting s else Some s)"

definition owner_mutex_lock :: "heap \<Rightarrow> nat \<Rightarrow> heap option" where
  "owner_mutex_lock s p =
     do { s1 \<leftarrow> spin (\<lambda>h. o_mutex (owners h p)) s;
          Some (upd_owner s1 p (\<lambda>x. x\<lparr> o_mutex := True \<rparr>)) }"

definition owner_mutex_unlock :: "heap \<Rightarrow> nat \<Rightarrow> heap" where
  "owner_mutex_unlock s p = upd_owner s p (\<lambda>x. x\<lparr> o_mutex := False \<rparr>)"

definition reader_mutex_lock :: "heap \<Rightarrow> nat \<Rightarrow> heap option" where
  "reader_mutex_lock s r =
     do { s1 \<leftarrow> spin (\<lambda>h. r_mutex (readers h r)) s;
          Some (upd_reader s1 r (\<lambda>x. x\<lparr> r_mutex := True \<rparr>)) }"

definition reader_mutex_unlock :: "heap \<Rightarrow> nat \<Rightarrow> heap" where
  "reader_mutex_unlock s r = upd_reader s r (\<lambda>x. x\<lparr> r_mutex := False \<rparr>)"

subsection \<open>\<open>owned_ptr::remove_\<close> and \<open>owned_ptr::replace_\<close>\<close>

text \<open>
  The iterator \<open>i\<close> is an index into \<open>children_\<close>, \<open>children_.begin()\<close> is \<open>0\<close> and
  \<open>children_.end()\<close> the length. Neither loop has a statement that advances \<open>i\<close>.
\<close>

definition erase_at :: "nat \<Rightarrow> 'a list \<Rightarrow> 'a list" where
  "erase_at i xs = take i xs @ drop (Suc i) xs"

partial_function (option) remove_loop :: "heap \<Rightarrow> nat \<Rightarrow> nat \<Rightarrow> nat \<Rightarrow> heap option" where
  "remove_loop s p child i =
     (if i < length (o_children (owners s p)) then
        (if o_children (owners s p) ! i = child then
           do { s1 \<leftarrow> spin (\<lambda>h. r_locked (readers h (o_children (owners h p) ! i)) = None) s;
                Some (upd_owner s1 p (\<lambda>x. x\<lparr> o_children := erase_at i (o_children x) \<rparr>)) }
         else remove_loop s p child i)
      else Some s)"

definition owned_ptr_remove :: "heap \<Rightarrow> nat \<Rightarrow> nat \<Rightarrow> heap option" where
  "owned_ptr_remove s p child =
     do { s1 \<leftarrow> owner_mutex_lock s p;
          s2 \<leftarrow> remove_loop s1 p child 0;
          Some (owner_mutex_unlock s2 p) }"

partial_function (option) replace_loop ::
  "heap \<Rightarrow> nat \<Rightarrow> nat \<Rightarrow> nat \<Rightarrow> nat \<Rightarrow> heap option" where
  "replace_loop s p reader with i =
     (if i < length (o_children (owners s p)) then
        (if o_children (owners s p) ! i = reader then
           Some (upd_owner s p (\<lambda>x. x\<lparr> o_children := (o_children x)[i := with] \<rparr>))
         else replace_loop s p reader with i)
      else Some s)"

definition owned_ptr_replace :: "heap \<Rightarrow> nat \<Rightarrow> nat \<Rightarrow> nat \<Rightarrow> heap option" where
  "owned_ptr_replace s p reader with =
     do { s1 \<leftarrow> owner_mutex_lock s p;
          s2 \<leftarrow> replace_loop s1 p reader with 0;
          Some (owner_mutex_unlock s2 p) }"

subsection \<open>\<open>reader_ptr::set_owner_\<close>, \<open>lock\<close>, \<open>unlock\<close>\<close>

definition reader_ptr_set_owner :: "heap \<Rightarrow> nat \<Rightarrow> nat option \<Rightarrow> heap option" where
  "reader_ptr_set_owner s r owner =
     do { s1 \<leftarrow> reader_mutex_lock s r;
          s2 \<leftarrow> (case (owner, r_parent (readers s1 r)) of
                   (Some _, Some parent) \<Rightarrow> owned_ptr_remove s1 parent r
                 | _ \<Rightarrow> Some s1);
          Some (reader_mutex_unlock (upd_reader s2 r (\<lambda>x. x\<lparr> r_parent := owner \<rparr>)) r) }"

text \<open>\<open>return locked_ = value_;\<close> gives the new store and the pointer returned.\<close>

definition reader_ptr_lock :: "heap \<Rightarrow> nat \<Rightarrow> heap \<times> ptr" where
  "reader_ptr_lock s r =
     (upd_reader s r (\<lambda>x. x\<lparr> r_locked := r_value x \<rparr>), r_value (readers s r))"

definition reader_ptr_unlock :: "heap \<Rightarrow> nat \<Rightarrow> heap" where
  "reader_ptr_unlock s r = upd_reader s r (\<lambda>x. x\<lparr> r_locked := None \<rparr>)"

subsection \<open>\<open>owned_ptr\<close>: constructor, \<open>get\<close>, \<open>reset\<close>, \<open>count\<close>, destructor\<close>

text \<open>The constructors build the object at the address \<open>this\<close> they are given.\<close>

definition owned_ptr_ctor :: "heap \<Rightarrow> nat \<Rightarrow> ptr \<Rightarrow> heap" where
  "owned_ptr_ctor s this v =
     s\<lparr> owners := (owners s)(this := \<lparr> o_mutex = False, o_value = v, o_children = [], o_update = [] \<rparr>),
        o_live := o_live s @ [this] \<rparr>"

definition owned_ptr_get :: "heap \<Rightarrow> nat \<Rightarrow> nat \<Rightarrow> heap option" where
  "owned_ptr_get s this reader =
     do { s1 \<leftarrow> owner_mutex_lock s this;
          s2 \<leftarrow> reader_ptr_set_owner
                 (upd_reader s1 reader (\<lambda>x. x\<lparr> r_value := o_value (owners s1 this) \<rparr>))
                 reader (Some this);
          Some (owner_mutex_unlock
                 (upd_owner s2 this (\<lambda>x. x\<lparr> o_children := o_children x @ [reader] \<rparr>)) this) }"

text \<open>
  \<open>reset\<close>: the body of the first \<open>for\<close> loop is \<open>mark_child\<close>. \<open>reset_scan\<close> is one run of
  the inner \<open>for\<close> loop over \<open>update_\<close>, from the entry the iterator is at. An entry whose
  reader is released (\<open>locked_ == nullptr\<close> or \<open>locked_ == value\<close>) is erased with
  \<open>update_.erase(child)\<close>, and the loop then increments \<open>child\<close>, an iterator that the
  erase has invalidated: the behaviour is undefined from there. A run that meets no
  released reader leaves the store as it is. \<open>reset_wait\<close> is the
  \<open>while (!update_.empty())\<close> loop around it.
\<close>

definition mark_child :: "heap \<Rightarrow> nat \<Rightarrow> ptr \<Rightarrow> nat \<Rightarrow> heap" where
  "mark_child s this v child =
     (let s1 = upd_reader s child (\<lambda>x. x\<lparr> r_value := v \<rparr>)
      in if r_locked (readers s1 child) \<noteq> None
         then upd_owner s1 this (\<lambda>x. x\<lparr> o_update := o_update x @ [child] \<rparr>)
         else s1)"

fun reset_mark :: "heap \<Rightarrow> nat \<Rightarrow> ptr \<Rightarrow> nat list \<Rightarrow> heap" where
  "reset_mark s this v [] = s"
| "reset_mark s this v (child # rest) = reset_mark (mark_child s this v child) this v rest"

definition released :: "heap \<Rightarrow> ptr \<Rightarrow> nat \<Rightarrow> bool" where
  "released s v child = (r_locked (readers s child) = None \<or> r_locked (readers s child) = v)"

fun reset_scan :: "heap \<Rightarrow> ptr \<Rightarrow> nat list \<Rightarrow> heap outcome" where
  "reset_scan s v [] = Returns s"
| "reset_scan s v (child # rest) =
     (if released s v child then Undefined else reset_scan s v rest)"

partial_function (option) reset_wait :: "heap \<Rightarrow> nat \<Rightarrow> ptr \<Rightarrow> heap outcome option" where
  "reset_wait s this v =
     (if o_update (owners s this) \<noteq> [] then
        (case reset_scan s v (o_update (owners s this)) of
           Returns s1 \<Rightarrow> reset_wait s1 this v
         | Undefined \<Rightarrow> Some Undefined)
      else Some (Returns s))"

definition reset_finish :: "heap \<Rightarrow> nat \<Rightarrow> ptr \<Rightarrow> heap" where
  "reset_finish s this v =
     upd_owner (delete_value s (o_value (owners s this))) this (\<lambda>x. x\<lparr> o_value := v \<rparr>)"

definition owned_ptr_reset :: "heap \<Rightarrow> nat \<Rightarrow> ptr \<Rightarrow> heap outcome option" where
  "owned_ptr_reset s this v =
     do { s1 \<leftarrow> owner_mutex_lock s this;
          r \<leftarrow> reset_wait (reset_mark s1 this v (o_children (owners s1 this))) this v;
          Some (case r of
                  Returns s2 \<Rightarrow> Returns (owner_mutex_unlock (reset_finish s2 this v) this)
                | Undefined \<Rightarrow> Undefined) }"

definition owned_ptr_count :: "heap \<Rightarrow> nat \<Rightarrow> (heap \<times> nat) option" where
  "owned_ptr_count s this =
     do { s1 \<leftarrow> owner_mutex_lock s this;
          Some (owner_mutex_unlock s1 this, length (o_children (owners s1 this))) }"

fun dtor_loop :: "heap \<Rightarrow> nat list \<Rightarrow> heap option" where
  "dtor_loop s [] = Some s"
| "dtor_loop s (child # rest) =
     do { s1 \<leftarrow> reader_ptr_set_owner (upd_reader s child (\<lambda>x. x\<lparr> r_value := None \<rparr>)) child None;
          s2 \<leftarrow> spin (\<lambda>h. r_locked (readers h child) \<noteq> None) s1;
          dtor_loop s2 rest }"

definition owned_ptr_dtor :: "heap \<Rightarrow> nat \<Rightarrow> heap option" where
  "owned_ptr_dtor s this =
     do { s1 \<leftarrow> owner_mutex_lock s this;
          s2 \<leftarrow> dtor_loop s1 (o_children (owners s1 this));
          Some ((owner_mutex_unlock (delete_value s2 (o_value (owners s2 this))) this)
                 \<lparr> o_live := removeAll this (o_live s2) \<rparr>) }"

subsection \<open>\<open>reader_ptr\<close>: constructors and destructor\<close>

definition reader_ptr_ctor :: "heap \<Rightarrow> nat \<Rightarrow> heap" where
  "reader_ptr_ctor s this =
     s\<lparr> readers := (readers s)(this := \<lparr> r_value = None, r_locked = None, r_mutex = False, r_parent = None \<rparr>),
        r_live := r_live s @ [this] \<rparr>"

definition reader_ptr_ctor_owner :: "heap \<Rightarrow> nat \<Rightarrow> nat \<Rightarrow> heap option" where
  "reader_ptr_ctor_owner s this owner = owned_ptr_get (reader_ptr_ctor s this) owner this"

definition reader_ptr_copy :: "heap \<Rightarrow> nat \<Rightarrow> nat \<Rightarrow> heap option" where
  "reader_ptr_copy s this other =
     do { s1 \<leftarrow> reader_mutex_lock (reader_ptr_ctor s this) other;
          s2 \<leftarrow> (case r_parent (readers s1 other) of
                   Some parent \<Rightarrow> owned_ptr_get s1 parent this
                 | None \<Rightarrow> Some s1);
          Some (reader_mutex_unlock s2 other) }"

text \<open>
  The move constructor \<open>reader_ptr(reader_ptr &&other)\<close> is not embedded. Its body calls
  \<open>other.parent_->replace_(other, this)\<close> with the object \<open>other\<close> where \<open>replace_\<close> takes
  a pointer to a reader, so a program that move-constructs a reader does not compile, and
  no call of a program is a move construction.
\<close>

definition reader_ptr_dtor :: "heap \<Rightarrow> nat \<Rightarrow> heap option" where
  "reader_ptr_dtor s this =
     do { s1 \<leftarrow> reader_mutex_lock s this;
          s2 \<leftarrow> (case r_parent (readers s1 this) of
                   Some parent \<Rightarrow> owned_ptr_remove s1 parent this
                 | None \<Rightarrow> Some s1);
          Some ((reader_mutex_unlock s2 this)\<lparr> r_live := removeAll this (r_live s2) \<rparr>) }"

subsection \<open>Other threads during \<open>reset\<close>\<close>

text \<open>
  While one thread is inside \<open>reset(value)\<close>, readers on other threads call \<open>lock()\<close> and
  \<open>unlock()\<close>, which take no mutex. The thread in \<open>reset\<close> is at one of these places:
  \<^item> \<open>Entry\<close>: before \<open>mutex_.lock()\<close>;
  \<^item> \<open>Mark i\<close>: in the first \<open>for\<close> loop, the iterator at entry \<open>i\<close> of \<open>children_\<close>;
  \<^item> \<open>Check\<close>: at the condition of \<open>while (!update_.empty())\<close>;
  \<^item> \<open>Scan i\<close>: in the inner \<open>for\<close> loop, the iterator at entry \<open>i\<close> of \<open>update_\<close>;
  \<^item> \<open>Done\<close>: returned, after \<open>delete value_; value_ = value; mutex_.unlock();\<close>
  \<^item> \<open>Crashed\<close>: after \<open>update_.erase(child)\<close>, at the increment of the invalidated
    iterator; nothing is defined from there.

  \<open>lock()\<close> is \<open>return locked_ = value_;\<close>, a load of \<open>value_\<close> and then a store to
  \<open>locked_\<close>, with nothing that keeps the two together: they are the events
  \<open>Reader_load\<close> and \<open>Reader_store\<close>, and the third component of a configuration holds
  the value a reader has loaded and not stored yet.
\<close>

datatype pc = Entry | Mark nat | Check | Scan nat | Done | Crashed

datatype event = Owner_step | Reader_load nat | Reader_store nat | Reader_unlock nat

fun owner_step :: "nat \<Rightarrow> ptr \<Rightarrow> heap \<Rightarrow> pc \<Rightarrow> heap \<times> pc" where
  "owner_step this v s Entry =
     (if o_mutex (owners s this) then (s, Entry)
      else (upd_owner s this (\<lambda>x. x\<lparr> o_mutex := True \<rparr>), Mark 0))"
| "owner_step this v s (Mark i) =
     (if i < length (o_children (owners s this))
      then (mark_child s this v (o_children (owners s this) ! i), Mark (Suc i))
      else (s, Check))"
| "owner_step this v s Check =
     (if o_update (owners s this) \<noteq> [] then (s, Scan 0)
      else (owner_mutex_unlock (reset_finish s this v) this, Done))"
| "owner_step this v s (Scan i) =
     (if i < length (o_update (owners s this)) then
        (if released s v (o_update (owners s this) ! i)
         then (upd_owner s this (\<lambda>x. x\<lparr> o_update := erase_at i (o_update x) \<rparr>), Crashed)
         else (s, Scan (Suc i)))
      else (s, Check))"
| "owner_step this v s Done = (s, Done)"
| "owner_step this v s Crashed = (s, Crashed)"

fun reset_event ::
  "nat \<Rightarrow> ptr \<Rightarrow> heap \<times> pc \<times> (nat \<Rightarrow> ptr option) \<Rightarrow> event \<Rightarrow> heap \<times> pc \<times> (nat \<Rightarrow> ptr option)" where
  "reset_event this v (s, Crashed, loaded) e = (s, Crashed, loaded)"
| "reset_event this v (s, place, loaded) Owner_step =
     (fst (owner_step this v s place), snd (owner_step this v s place), loaded)"
| "reset_event this v (s, place, loaded) (Reader_load r) =
     (s, place, loaded(r := Some (r_value (readers s r))))"
| "reset_event this v (s, place, loaded) (Reader_store r) =
     (case loaded r of
        None \<Rightarrow> (s, place, loaded)
      | Some x \<Rightarrow> (upd_reader s r (\<lambda>y. y\<lparr> r_locked := x \<rparr>), place, loaded(r := None)))"
| "reset_event this v (s, place, loaded) (Reader_unlock r) = (reader_ptr_unlock s r, place, loaded)"

fun reset_run ::
  "nat \<Rightarrow> ptr \<Rightarrow> heap \<times> pc \<times> (nat \<Rightarrow> ptr option) \<Rightarrow> event list \<Rightarrow> heap \<times> pc \<times> (nat \<Rightarrow> ptr option)" where
  "reset_run this v c [] = c"
| "reset_run this v c (e # es) = reset_run this v (reset_event this v c e) es"

definition no_loads :: "nat \<Rightarrow> ptr option" where
  "no_loads r = None"

section \<open>The exclusive-lock pair: \<open>owned_ptr\<close> and \<open>child_ptr\<close> (the earlier header)\<close>

text \<open>
  The members \<open>mutex_\<close>, \<open>parent_\<close>, \<open>locked_\<close> of \<open>child_ptr\<close> are \<open>c_mutex\<close>, \<open>c_parent\<close>,
  \<open>c_locked\<close>; the members \<open>mutex_\<close>, \<open>value_\<close>, \<open>children_\<close> of this header's \<open>owned_ptr\<close>
  are \<open>x_mutex\<close>, \<open>x_value\<close>, \<open>x_children\<close>, and its member functions are the constants
  \<open>child_owned_ptr_get\<close> and \<open>child_owned_ptr_remove\<close>; \<open>lock_\<close> of \<open>child_ptr\<close> is
  \<open>child_ptr_lock_aux\<close>.
\<close>

record child_ptr =
  c_mutex :: bool
  c_parent :: "nat option"
  c_locked :: bool

record child_owned_ptr =
  x_mutex :: bool
  x_value :: ptr
  x_children :: "nat list"

record child_heap =
  children :: "nat \<Rightarrow> child_ptr"
  xowners :: "nat \<Rightarrow> child_owned_ptr"

definition upd_child :: "child_heap \<Rightarrow> nat \<Rightarrow> (child_ptr \<Rightarrow> child_ptr) \<Rightarrow> child_heap" where
  "upd_child s c f = s\<lparr> children := (children s)(c := f (children s c)) \<rparr>"

definition upd_xowner ::
  "child_heap \<Rightarrow> nat \<Rightarrow> (child_owned_ptr \<Rightarrow> child_owned_ptr) \<Rightarrow> child_heap" where
  "upd_xowner s p f = s\<lparr> xowners := (xowners s)(p := f (xowners s p)) \<rparr>"

definition child_mutex_lock :: "child_heap \<Rightarrow> nat \<Rightarrow> child_heap option" where
  "child_mutex_lock s c =
     do { s1 \<leftarrow> spin (\<lambda>h. c_mutex (children h c)) s;
          Some (upd_child s1 c (\<lambda>x. x\<lparr> c_mutex := True \<rparr>)) }"

definition xowner_mutex_lock :: "child_heap \<Rightarrow> nat \<Rightarrow> child_heap option" where
  "xowner_mutex_lock s p =
     do { s1 \<leftarrow> spin (\<lambda>h. x_mutex (xowners h p)) s;
          Some (upd_xowner s1 p (\<lambda>x. x\<lparr> x_mutex := True \<rparr>)) }"

text \<open>
  \<open>child_ptr()\<close> initialises \<open>parent_\<close> only; \<open>locked_\<close> starts with whatever the memory
  holds, the parameter \<open>garbage\<close>.
\<close>

definition child_ptr_ctor :: "child_heap \<Rightarrow> nat \<Rightarrow> bool \<Rightarrow> child_heap" where
  "child_ptr_ctor s this garbage =
     s\<lparr> children := (children s)(this := \<lparr> c_mutex = False, c_parent = None, c_locked = garbage \<rparr>) \<rparr>"

definition child_owned_ptr_ctor :: "child_heap \<Rightarrow> nat \<Rightarrow> ptr \<Rightarrow> child_heap" where
  "child_owned_ptr_ctor s this v =
     s\<lparr> xowners := (xowners s)(this := \<lparr> x_mutex = False, x_value = v, x_children = [] \<rparr>) \<rparr>"

partial_function (option) child_remove_loop ::
  "child_heap \<Rightarrow> nat \<Rightarrow> nat \<Rightarrow> nat \<Rightarrow> child_heap option" where
  "child_remove_loop s p child i =
     (if i < length (x_children (xowners s p)) then
        (if x_children (xowners s p) ! i = child then
           Some (upd_xowner s p (\<lambda>x. x\<lparr> x_children := erase_at i (x_children x) \<rparr>))
         else child_remove_loop s p child i)
      else Some s)"

definition child_owned_ptr_remove :: "child_heap \<Rightarrow> nat \<Rightarrow> nat \<Rightarrow> child_heap option" where
  "child_owned_ptr_remove s p child =
     do { s1 \<leftarrow> xowner_mutex_lock s p;
          s2 \<leftarrow> child_remove_loop s1 p child 0;
          Some (upd_xowner s2 p (\<lambda>x. x\<lparr> x_mutex := False \<rparr>)) }"

definition child_owned_ptr_get :: "child_heap \<Rightarrow> nat \<Rightarrow> nat \<Rightarrow> child_heap option" where
  "child_owned_ptr_get s this child =
     do { s1 \<leftarrow> child_mutex_lock s child;
          s2 \<leftarrow> (case c_parent (children s1 child) of
                   Some parent \<Rightarrow> child_owned_ptr_remove s1 parent child
                 | None \<Rightarrow> Some s1);
          s3 \<leftarrow> xowner_mutex_lock
                 (upd_child s2 child (\<lambda>x. x\<lparr> c_parent := Some this, c_mutex := False \<rparr>)) this;
          Some (upd_xowner s3 this
                 (\<lambda>x. x\<lparr> x_children := x_children x @ [child], x_mutex := False \<rparr>)) }"

text \<open>\<open>lock_()\<close> runs with the child's own mutex already taken by its caller.\<close>

definition child_ptr_lock_aux :: "child_heap \<Rightarrow> nat \<Rightarrow> child_heap \<times> ptr" where
  "child_ptr_lock_aux s this =
     (case c_parent (children s this) of
        Some parent \<Rightarrow> (upd_child s this (\<lambda>x. x\<lparr> c_locked := True \<rparr>), x_value (xowners s parent))
      | None \<Rightarrow> (upd_child s this (\<lambda>x. x\<lparr> c_mutex := False \<rparr>), None))"

definition child_ptr_lock :: "child_heap \<Rightarrow> nat \<Rightarrow> (child_heap \<times> ptr) option" where
  "child_ptr_lock s this =
     do { s1 \<leftarrow> child_mutex_lock s this;
          Some (child_ptr_lock_aux s1 this) }"

text \<open>
  \<open>try_lock(timeout)\<close>: \<open>clock k\<close> is what the \<open>k\<close>-th call of \<open>time\<close> made by this call
  returns, \<open>clock 0\<close> being \<open>time(&now)\<close>; \<open>time_t\<close> is an integer number of seconds, and
  \<open>now + timeout\<close> is taken not to overflow. \<open>mutex_.try_lock()\<close> takes the mutex when it is
  free and fails at once when it is held. The body of the \<open>do\<close> loop runs before the
  condition \<open>now + timeout < time(nullptr)\<close> is read.
\<close>

partial_function (option) try_lock_loop ::
  "(nat \<Rightarrow> int) \<Rightarrow> int \<Rightarrow> int \<Rightarrow> child_heap \<Rightarrow> nat \<Rightarrow> nat \<Rightarrow> (child_heap \<times> ptr) option" where
  "try_lock_loop clock now timeout s this k =
     (if \<not> c_mutex (children s this)
      then Some (child_ptr_lock_aux (upd_child s this (\<lambda>x. x\<lparr> c_mutex := True \<rparr>)) this)
      else if now + timeout < clock k
      then try_lock_loop clock now timeout s this (Suc k)
      else Some (s, None))"

definition child_ptr_try_lock ::
  "(nat \<Rightarrow> int) \<Rightarrow> int \<Rightarrow> child_heap \<Rightarrow> nat \<Rightarrow> (child_heap \<times> ptr) option" where
  "child_ptr_try_lock clock timeout s this = try_lock_loop clock (clock 0) timeout s this 1"

text \<open>
  \<open>unlock()\<close> releases \<open>mutex_\<close> and \<open>parent_->mutex_\<close>; releasing a mutex clears its flag.
  With \<open>locked_\<close> set and \<open>parent_ == nullptr\<close> the call dereferences a null pointer, which
  has no result here.
\<close>

definition child_ptr_unlock :: "child_heap \<Rightarrow> nat \<Rightarrow> child_heap option" where
  "child_ptr_unlock s this =
     (if c_locked (children s this) then
        (case c_parent (children s this) of
           Some parent \<Rightarrow>
             Some (upd_child
                     (upd_xowner (upd_child s this (\<lambda>x. x\<lparr> c_mutex := False \<rparr>)) parent
                        (\<lambda>x. x\<lparr> x_mutex := False \<rparr>))
                     this (\<lambda>x. x\<lparr> c_locked := False \<rparr>))
         | None \<Rightarrow> None)
      else Some s)"

definition child_heap0 :: child_heap where
  "child_heap0 = \<lparr> children = (\<lambda>_. \<lparr> c_mutex = False, c_parent = None, c_locked = False \<rparr>),
                   xowners = (\<lambda>_. \<lparr> x_mutex = False, x_value = None, x_children = [] \<rparr>) \<rparr>"

section \<open>Programs\<close>

text \<open>
  A program over the shared-read pair is a list of calls, made one after the other by one
  thread. \<open>exec\<close> gives the store the program ends in. It is \<open>None\<close> when a call never
  returns, and also when the behaviour is undefined: in \<open>reset\<close>, or because the program
  constructs an object at an address in use or uses an object outside its lifetime.
\<close>

datatype op =
    New_owner nat ptr | Delete_owner nat | Get nat nat | Reset nat ptr | Count nat
  | New_reader nat | New_reader_of nat nat | Copy_reader nat nat
  | Delete_reader nat | Lock nat | Unlock nat

fun exec_op :: "heap \<Rightarrow> op \<Rightarrow> heap option" where
  "exec_op s (New_owner p v) = (if p \<in> set (o_live s) then None else Some (owned_ptr_ctor s p v))"
| "exec_op s (Delete_owner p) = (if p \<in> set (o_live s) then owned_ptr_dtor s p else None)"
| "exec_op s (Get p r) =
     (if p \<in> set (o_live s) \<and> r \<in> set (r_live s) then owned_ptr_get s p r else None)"
| "exec_op s (Reset p v) =
     (if p \<in> set (o_live s)
      then (case owned_ptr_reset s p v of Some (Returns t) \<Rightarrow> Some t | _ \<Rightarrow> None)
      else None)"
| "exec_op s (Count p) =
     (if p \<in> set (o_live s) then map_option fst (owned_ptr_count s p) else None)"
| "exec_op s (New_reader r) = (if r \<in> set (r_live s) then None else Some (reader_ptr_ctor s r))"
| "exec_op s (New_reader_of r p) =
     (if r \<notin> set (r_live s) \<and> p \<in> set (o_live s) then reader_ptr_ctor_owner s r p else None)"
| "exec_op s (Copy_reader r other) =
     (if r \<notin> set (r_live s) \<and> other \<in> set (r_live s) then reader_ptr_copy s r other else None)"
| "exec_op s (Delete_reader r) = (if r \<in> set (r_live s) then reader_ptr_dtor s r else None)"
| "exec_op s (Lock r) = (if r \<in> set (r_live s) then Some (fst (reader_ptr_lock s r)) else None)"
| "exec_op s (Unlock r) = (if r \<in> set (r_live s) then Some (reader_ptr_unlock s r) else None)"

fun exec :: "heap \<Rightarrow> op list \<Rightarrow> heap option" where
  "exec s [] = Some s"
| "exec s (x # xs) = do { t \<leftarrow> exec_op s x; exec t xs }"

text \<open>
  The two sides of an attachment agree in \<open>consistent s\<close>: no mutex is held, the registry
  of a live owner lists, once each, the live readers whose \<open>parent_\<close> is this owner, its
  \<open>update_\<close> is empty, and a live reader has the value of its live owner, or no owner and
  no value.
\<close>

definition consistent :: "heap \<Rightarrow> bool" where
  "consistent s =
     ((\<forall>p. \<not> o_mutex (owners s p)) \<and> (\<forall>r. \<not> r_mutex (readers s r)) \<and>
      distinct (r_live s) \<and>
      (\<forall>p \<in> set (o_live s).
         o_update (owners s p) = [] \<and> distinct (o_children (owners s p)) \<and>
         set (o_children (owners s p)) = {r \<in> set (r_live s). r_parent (readers s r) = Some p}) \<and>
      (\<forall>r \<in> set (r_live s). r_parent (readers s r) = None \<longrightarrow> r_value (readers s r) = None) \<and>
      (\<forall>r \<in> set (r_live s). \<forall>p. r_parent (readers s r) = Some p \<longrightarrow>
         p \<in> set (o_live s) \<and> r_value (readers s r) = o_value (owners s p)))"

text \<open>The number of live readers whose \<open>parent_\<close> is the owner \<open>p\<close>.\<close>

definition attached_count :: "heap \<Rightarrow> nat \<Rightarrow> nat" where
  "attached_count s p = length (filter (\<lambda>r. r_parent (readers s r) = Some p) (r_live s))"

text \<open>
  The programs of the claims; owners and readers are named by their addresses, and the
  values are at the addresses 10, 20 and 30.
  \<^item> \<open>prog_attach\<close>: \<open>owned_ptr owner0(p10); reader_ptr reader0; owner0.get(reader0);\<close>
  \<^item> \<open>prog_locked\<close>: then \<open>reader0.lock();\<close>
  \<^item> \<open>prog_reset\<close>: after \<open>prog_attach\<close>, \<open>owner0.reset(p20);\<close>
  \<^item> \<open>prog_reattach\<close>: after \<open>prog_attach\<close>, \<open>reader_ptr reader1(&owner0);
    reader0.lock(); owned_ptr owner1(p30); owner1.get(reader0);\<close>
  \<^item> \<open>prog_reattach_reset\<close>: then \<open>owner0.reset(p20);\<close>
\<close>

definition prog_attach :: "heap option" where
  "prog_attach = exec heap0 [New_owner 0 (Some 10), New_reader 0, Get 0 0]"

definition prog_locked :: "heap option" where
  "prog_locked = exec heap0 [New_owner 0 (Some 10), New_reader 0, Get 0 0, Lock 0]"

definition prog_reset :: "heap option" where
  "prog_reset = exec heap0 [New_owner 0 (Some 10), New_reader 0, Get 0 0, Reset 0 (Some 20)]"

definition prog_reattach :: "heap option" where
  "prog_reattach =
     exec heap0 [New_owner 0 (Some 10), New_reader 0, Get 0 0, New_reader_of 1 0, Lock 0,
                 New_owner 1 (Some 30), Get 1 0]"

definition prog_reattach_reset :: "heap option" where
  "prog_reattach_reset =
     exec heap0 [New_owner 0 (Some 10), New_reader 0, Get 0 0, New_reader_of 1 0, Lock 0,
                 New_owner 1 (Some 30), Get 1 0, Reset 0 (Some 20)]"

text \<open>
  Runs of \<open>owner0.reset(p20)\<close> on one thread against reader 0 on another.
  \<^item> \<open>race_run\<close>, from \<open>prog_attach\<close>: reader 0 enters \<open>lock()\<close> and loads \<open>value_\<close>; the
    call of \<open>reset\<close> takes the mutex, runs its first loop and leaves it; reader 0 stores
    to \<open>locked_\<close>; \<open>reset\<close> finds \<open>update_\<close> empty and goes on to its end.
  \<^item> \<open>waiting_run\<close>, from \<open>prog_locked\<close>: the call of \<open>reset\<close> takes the mutex, runs its
    first loop and then the inner loop once, and is back at the \<open>while\<close> condition.
  \<^item> \<open>unlock_run\<close>: after that reader 0 calls \<open>unlock()\<close>, and \<open>reset\<close> enters the inner
    loop again and takes one step in it.
\<close>

definition race_run :: "heap \<times> pc \<times> (nat \<Rightarrow> ptr option)" where
  "race_run =
     reset_run 0 (Some 20) (the prog_attach, Entry, no_loads)
       [Reader_load 0, Owner_step, Owner_step, Owner_step, Reader_store 0, Owner_step]"

definition waiting_run :: "heap \<times> pc \<times> (nat \<Rightarrow> ptr option)" where
  "waiting_run =
     reset_run 0 (Some 20) (the prog_locked, Entry, no_loads)
       [Owner_step, Owner_step, Owner_step, Owner_step, Owner_step, Owner_step]"

definition unlock_run :: "heap \<times> pc \<times> (nat \<Rightarrow> ptr option)" where
  "unlock_run = reset_run 0 (Some 20) waiting_run [Reader_unlock 0, Owner_step, Owner_step]"

text \<open>
  The calls of example.cpp: two readers attach, one locks and reads, the other unlocks
  without having locked, a third reader is copy-constructed, \<open>count()\<close>, \<open>reset\<close>, a
  second read, the owner is deleted, and a last \<open>lock()\<close>.
\<close>

definition example_cpp :: "op list" where
  "example_cpp =
     [New_owner 0 (Some 1204), New_reader 0, Get 0 0, New_reader_of 1 0,
      Lock 0, Unlock 1, Unlock 0, Copy_reader 2 0, Count 0,
      Reset 0 (Some 326), Lock 0, Unlock 0, Delete_owner 0, Lock 0]"

text \<open>
  Over the exclusive-lock pair: \<open>child_prog\<close> is \<open>owned_ptr owner0(p3); child_ptr child0;
  owner0.get(child0); child_ptr child1; owner0.get(child1);\<close> and \<open>child_prog_locked\<close> is
  then \<open>child0.lock()\<close>, with the pointer it returns. Two clocks: on \<open>clock_ticks\<close> the
  second changes between \<open>time(&now)\<close> and the next reading, on \<open>clock_steady\<close> it does
  not change.
\<close>

definition child_prog :: "child_heap option" where
  "child_prog =
     do { s \<leftarrow> child_owned_ptr_get
                 (child_ptr_ctor (child_owned_ptr_ctor child_heap0 0 (Some 3)) 0 False) 0 0;
          child_owned_ptr_get (child_ptr_ctor s 1 False) 0 1 }"

definition child_prog_locked :: "(child_heap \<times> ptr) option" where
  "child_prog_locked = do { s \<leftarrow> child_prog; child_ptr_lock s 0 }"

definition clock_ticks :: "nat \<Rightarrow> int" where
  "clock_ticks k = (if k = 0 then 100 else 101)"

definition clock_steady :: "nat \<Rightarrow> int" where
  "clock_steady k = 100"

section \<open>Closed forms of the loops\<close>

lemma spin_Some:
  assumes "spin w s = Some t"
  shows "\<not> w s \<and> t = s"
  by (rule spin.raw_induct[OF _ assms]) (auto split: if_splits)

lemma spin_eq: "spin w s = (if w s then None else Some s)"
proof (cases "w s")
  case True
  then show ?thesis using spin_Some[of w s] by (cases "spin w s") auto
next
  case False
  then show ?thesis by (subst spin.simps) simp
qed

lemma remove_loop_Some:
  assumes "remove_loop s p c i = Some t"
  shows "\<not> (i < length (o_children (owners s p)) \<and> o_children (owners s p) ! i \<noteq> c)"
  by (rule remove_loop.raw_induct[OF _ assms]) (auto split: if_splits)

lemma remove_loop_eq:
  "remove_loop s p c i =
     (if i < length (o_children (owners s p)) then
        (if o_children (owners s p) ! i = c then
           (if r_locked (readers s c) = None then None
            else Some (upd_owner s p (\<lambda>x. x\<lparr> o_children := erase_at i (o_children x) \<rparr>)))
         else None)
      else Some s)"
proof (cases "i < length (o_children (owners s p)) \<and> o_children (owners s p) ! i \<noteq> c")
  case True
  then show ?thesis using remove_loop_Some[of s p c i] by (cases "remove_loop s p c i") auto
next
  case False
  then show ?thesis by (subst remove_loop.simps) (auto simp: spin_eq)
qed

lemma replace_loop_Some:
  assumes "replace_loop s p r w i = Some t"
  shows "\<not> (i < length (o_children (owners s p)) \<and> o_children (owners s p) ! i \<noteq> r)"
  by (rule replace_loop.raw_induct[OF _ assms]) (auto split: if_splits)

lemma replace_loop_eq:
  "replace_loop s p r w i =
     (if i < length (o_children (owners s p)) then
        (if o_children (owners s p) ! i = r then
           Some (upd_owner s p (\<lambda>x. x\<lparr> o_children := (o_children x)[i := w] \<rparr>))
         else None)
      else Some s)"
proof (cases "i < length (o_children (owners s p)) \<and> o_children (owners s p) ! i \<noteq> r")
  case True
  then show ?thesis using replace_loop_Some[of s p r w i] by (cases "replace_loop s p r w i") auto
next
  case False
  then show ?thesis by (subst replace_loop.simps) auto
qed

lemma child_remove_loop_Some:
  assumes "child_remove_loop s p c i = Some t"
  shows "\<not> (i < length (x_children (xowners s p)) \<and> x_children (xowners s p) ! i \<noteq> c)"
  by (rule child_remove_loop.raw_induct[OF _ assms]) (auto split: if_splits)

lemma child_remove_loop_eq:
  "child_remove_loop s p c i =
     (if i < length (x_children (xowners s p)) then
        (if x_children (xowners s p) ! i = c then
           Some (upd_xowner s p (\<lambda>x. x\<lparr> x_children := erase_at i (x_children x) \<rparr>))
         else None)
      else Some s)"
proof (cases "i < length (x_children (xowners s p)) \<and> x_children (xowners s p) ! i \<noteq> c")
  case True
  then show ?thesis
    using child_remove_loop_Some[of s p c i] by (cases "child_remove_loop s p c i") auto
next
  case False
  then show ?thesis by (subst child_remove_loop.simps) auto
qed

lemma reset_scan_eq:
  "reset_scan s v cs = (if \<exists>c \<in> set cs. released s v c then Undefined else Returns s)"
  by (induction cs) auto

lemma reset_wait_Some:
  assumes "reset_wait s this v = Some y"
  shows "o_update (owners s this) = [] \<or> (\<exists>c \<in> set (o_update (owners s this)). released s v c)"
  by (rule reset_wait.raw_induct[OF _ assms]) (auto simp: reset_scan_eq split: if_splits, blast)

lemma reset_wait_eq:
  "reset_wait s this v =
     (if o_update (owners s this) = [] then Some (Returns s)
      else if \<exists>c \<in> set (o_update (owners s this)). released s v c then Some Undefined
      else None)"
proof (cases "o_update (owners s this) = [] \<or>
              (\<exists>c \<in> set (o_update (owners s this)). released s v c)")
  case True
  then show ?thesis by (subst reset_wait.simps) (auto simp: reset_scan_eq)
next
  case False
  then show ?thesis
    using reset_wait_Some[of s this v] by (cases "reset_wait s this v") auto
qed

lemma try_lock_loop_Some:
  assumes "try_lock_loop clock now timeout s this k = Some y"
  shows "\<not> (c_mutex (children s this) \<and> (\<forall>j\<ge>k. now + timeout < clock j))"
proof (rule try_lock_loop.raw_induct[OF _ assms])
  fix f :: "(nat \<Rightarrow> int) \<Rightarrow> int \<Rightarrow> int \<Rightarrow> child_heap \<Rightarrow> nat \<Rightarrow> nat \<Rightarrow> (child_heap \<times> ptr) option"
    and clock now timeout s this k y
  assume IH: "\<And>clock now timeout s this k y. f clock now timeout s this k = Some y \<Longrightarrow>
                \<not> (c_mutex (children s this) \<and> (\<forall>j\<ge>k. now + timeout < clock j))"
    and body: "(if \<not> c_mutex (children s this)
                then Some (child_ptr_lock_aux (upd_child s this (\<lambda>x. x\<lparr> c_mutex := True \<rparr>)) this)
                else if now + timeout < clock k then f clock now timeout s this (Suc k)
                else Some (s, None)) = Some y"
  show "\<not> (c_mutex (children s this) \<and> (\<forall>j\<ge>k. now + timeout < clock j))"
  proof
    assume held: "c_mutex (children s this) \<and> (\<forall>j\<ge>k. now + timeout < clock j)"
    then have "f clock now timeout s this (Suc k) = Some y" using body by simp
    from IH[OF this] held show False by (auto dest: Suc_leD)
  qed
qed

lemma try_lock_loop_forever:
  assumes "c_mutex (children s this)" "\<forall>j\<ge>k. now + timeout < clock j"
  shows "try_lock_loop clock now timeout s this k = None"
  using assms try_lock_loop_Some[of clock now timeout s this k]
  by (cases "try_lock_loop clock now timeout s this k") auto

text \<open>The equations that run a program: the definitions and the closed forms of the loops.\<close>

lemmas run_defs = heap0_def upd_reader_def upd_owner_def delete_value_def owner_mutex_lock_def
  owner_mutex_unlock_def reader_mutex_lock_def reader_mutex_unlock_def erase_at_def
  owned_ptr_remove_def owned_ptr_replace_def reader_ptr_set_owner_def reader_ptr_lock_def
  reader_ptr_unlock_def owned_ptr_ctor_def owned_ptr_get_def mark_child_def released_def
  reset_finish_def owned_ptr_reset_def owned_ptr_count_def owned_ptr_dtor_def reader_ptr_ctor_def
  reader_ptr_ctor_owner_def reader_ptr_copy_def reader_ptr_dtor_def
  spin_eq remove_loop_eq replace_loop_eq reset_wait_eq

lemmas child_defs = child_heap0_def upd_child_def upd_xowner_def child_mutex_lock_def
  xowner_mutex_lock_def child_ptr_ctor_def child_owned_ptr_ctor_def child_owned_ptr_remove_def
  child_owned_ptr_get_def child_ptr_lock_aux_def child_ptr_lock_def child_ptr_unlock_def
  erase_at_def spin_eq child_remove_loop_eq

lemmas prog_defs = prog_attach_def prog_locked_def prog_reset_def prog_reattach_def
  prog_reattach_reset_def child_prog_def child_prog_locked_def

text \<open>
  The example program runs to its end, and prints what its comments say: the first
  \<open>lock()\<close> gives 1204, \<open>count()\<close> is 3, the \<open>lock()\<close> after \<open>reset\<close> gives 326 with 1204
  freed, and the \<open>lock()\<close> after the owner is deleted gives \<open>nullptr\<close>.
\<close>

lemma example_cpp_runs:
  "exec heap0 example_cpp \<noteq> None \<and>
   snd (reader_ptr_lock (the (exec heap0 (take 4 example_cpp))) 0) = Some 1204 \<and>
   map_option snd (owned_ptr_count (the (exec heap0 (take 8 example_cpp))) 0) = Some 3 \<and>
   snd (reader_ptr_lock (the (exec heap0 (take 10 example_cpp))) 0) = Some 326 \<and>
   1204 \<in> freed (the (exec heap0 (take 10 example_cpp))) \<and>
   snd (reader_ptr_lock (the (exec heap0 (take 13 example_cpp))) 0) = None \<and>
   326 \<in> freed (the (exec heap0 (take 13 example_cpp)))"
  by (simp add: example_cpp_def run_defs)

text \<open>\<open>child_ptr::lock()\<close> changes no owner, whatever it returns.\<close>

lemma lock_keeps_owners:
  assumes "child_ptr_lock s this = Some (t, v)"
  shows "xowners t = xowners s"
  using assms
  by (auto simp: child_ptr_lock_def child_mutex_lock_def child_ptr_lock_aux_def spin_eq
        upd_child_def split: if_splits option.splits)

section \<open>What every program keeps\<close>

text \<open>
  Every call keeps the store consistent, so a program that runs to its end ends in a
  consistent store.
\<close>

lemma consistent_heap0: "consistent heap0"
  by (simp add: consistent_def heap0_def)

lemma new_owner_ok: "consistent s \<Longrightarrow> p \<notin> set (o_live s) \<Longrightarrow> consistent (owned_ptr_ctor s p v)"
  unfolding consistent_def owned_ptr_ctor_def
  by auto

lemma new_reader_ok: "consistent s \<Longrightarrow> r \<notin> set (r_live s) \<Longrightarrow> consistent (reader_ptr_ctor s r)"
  unfolding consistent_def reader_ptr_ctor_def
  by auto

lemma lock_ok: "consistent s \<Longrightarrow> consistent (fst (reader_ptr_lock s r))"
  unfolding consistent_def reader_ptr_lock_def upd_reader_def
  by auto

lemma unlock_ok: "consistent s \<Longrightarrow> consistent (reader_ptr_unlock s r)"
  unfolding consistent_def reader_ptr_unlock_def upd_reader_def
  by auto

lemma count_ok: "consistent s \<Longrightarrow> owned_ptr_count s p = Some (t, n) \<Longrightarrow> consistent t"
  unfolding consistent_def owned_ptr_count_def
  by (auto simp: owner_mutex_lock_def owner_mutex_unlock_def spin_eq upd_owner_def
        split: option.splits if_splits bind_splits)

lemma get_ok:
  assumes inv: "consistent s" and live: "p \<in> set (o_live s)" "r \<in> set (r_live s)"
      and get: "owned_ptr_get s p r = Some t"
  shows "consistent t"
proof (cases "r_parent (readers s r)")
  case None
  have free: "\<forall>p. \<not> o_mutex (owners s p)" "\<forall>r. \<not> r_mutex (readers s r)"
    using inv by (simp_all add: consistent_def)
  have t: "t = s\<lparr> readers := (readers s)(r := (readers s r)\<lparr> r_value := o_value (owners s p),
                                   r_parent := Some p, r_mutex := False \<rparr>),
                  owners := (owners s)(p := (owners s p)\<lparr> o_children := o_children (owners s p) @ [r],
                                   o_mutex := False \<rparr>) \<rparr>"
    using get None free
    by (cases s) (auto simp add: owned_ptr_get_def reader_ptr_set_owner_def owner_mutex_lock_def
          owner_mutex_unlock_def reader_mutex_lock_def reader_mutex_unlock_def spin_eq
          upd_owner_def upd_reader_def)
  show ?thesis
    using inv live None unfolding t consistent_def by auto
next
  case (Some q)
  have free: "\<forall>p. \<not> o_mutex (owners s p)" "\<forall>r. \<not> r_mutex (readers s r)"
    using inv by (simp_all add: consistent_def)
  have qp: "q \<noteq> p"
    using get Some free
    by (auto simp: owned_ptr_get_def reader_ptr_set_owner_def owner_mutex_lock_def
          owned_ptr_remove_def reader_mutex_lock_def spin_eq
          upd_owner_def upd_reader_def split: bind_splits)
  have qlive: "q \<in> set (o_live s)" and rq: "r \<in> set (o_children (owners s q))"
    using inv live Some by (auto simp: consistent_def)
  then obtain c rest where ch: "o_children (owners s q) = c # rest"
    by (cases "o_children (owners s q)") auto
  have cr: "c = r \<and> r_locked (readers s r) \<noteq> None"
    using get Some free qp ch
    by (auto simp: owned_ptr_get_def reader_ptr_set_owner_def owner_mutex_lock_def
          owned_ptr_remove_def reader_mutex_lock_def spin_eq remove_loop_eq
          upd_owner_def upd_reader_def split: bind_splits if_splits)
  have t: "t = s\<lparr> readers := (readers s)(r := (readers s r)\<lparr> r_value := o_value (owners s p),
                                   r_parent := Some p, r_mutex := False \<rparr>),
                  owners := (owners s)(q := (owners s q)\<lparr> o_children := rest, o_mutex := False \<rparr>,
                                       p := (owners s p)\<lparr> o_children := o_children (owners s p) @ [r],
                                   o_mutex := False \<rparr>) \<rparr>"
    using get Some free qp ch cr
    by (cases s) (auto simp add: owned_ptr_get_def reader_ptr_set_owner_def owner_mutex_lock_def
          owner_mutex_unlock_def reader_mutex_lock_def reader_mutex_unlock_def spin_eq
          owned_ptr_remove_def remove_loop_eq erase_at_def
          upd_owner_def upd_reader_def)
  have "distinct (o_children (owners s q)) \<and>
        set (o_children (owners s q)) = {x \<in> set (r_live s). r_parent (readers s x) = Some q}"
    using inv qlive by (simp add: consistent_def)
  then have rest: "distinct rest" "r \<notin> set rest"
      "\<forall>x. (x \<in> set rest) = (x \<noteq> r \<and> x \<in> set (r_live s) \<and> r_parent (readers s x) = Some q)"
    using ch cr by auto
  show ?thesis
    using inv live Some qp qlive rest unfolding t consistent_def by auto
qed

lemma mark_child_fields:
  "r_value (readers (mark_child s p v c) x) = (if x = c then v else r_value (readers s x)) \<and>
   r_locked (readers (mark_child s p v c) x) = r_locked (readers s x) \<and>
   r_parent (readers (mark_child s p v c) x) = r_parent (readers s x) \<and>
   r_mutex (readers (mark_child s p v c) x) = r_mutex (readers s x) \<and>
   o_children (owners (mark_child s p v c) q) = o_children (owners s q) \<and>
   o_value (owners (mark_child s p v c) q) = o_value (owners s q) \<and>
   o_mutex (owners (mark_child s p v c) q) = o_mutex (owners s q) \<and>
   (q \<noteq> p \<longrightarrow> o_update (owners (mark_child s p v c) q) = o_update (owners s q)) \<and>
   freed (mark_child s p v c) = freed s \<and> r_live (mark_child s p v c) = r_live s \<and>
   o_live (mark_child s p v c) = o_live s"
  by (simp add: mark_child_def upd_reader_def upd_owner_def Let_def)

lemma reset_mark_fields:
  "r_value (readers (reset_mark s p v cs) x) = (if x \<in> set cs then v else r_value (readers s x)) \<and>
   r_locked (readers (reset_mark s p v cs) x) = r_locked (readers s x) \<and>
   r_parent (readers (reset_mark s p v cs) x) = r_parent (readers s x) \<and>
   r_mutex (readers (reset_mark s p v cs) x) = r_mutex (readers s x) \<and>
   o_children (owners (reset_mark s p v cs) q) = o_children (owners s q) \<and>
   o_value (owners (reset_mark s p v cs) q) = o_value (owners s q) \<and>
   o_mutex (owners (reset_mark s p v cs) q) = o_mutex (owners s q) \<and>
   (q \<noteq> p \<longrightarrow> o_update (owners (reset_mark s p v cs) q) = o_update (owners s q)) \<and>
   freed (reset_mark s p v cs) = freed s \<and> r_live (reset_mark s p v cs) = r_live s \<and>
   o_live (reset_mark s p v cs) = o_live s"
proof (induction cs arbitrary: s)
  case Nil
  show ?case by simp
next
  case (Cons c cs)
  show ?case
    using Cons[of "mark_child s p v c"] mark_child_fields[of s p v c x q] by auto
qed

lemma reset_fields:
  assumes free: "\<not> o_mutex (owners s p)" and reset: "owned_ptr_reset s p v = Some (Returns t)"
  shows "r_value (readers t x) =
           (if x \<in> set (o_children (owners s p)) then v else r_value (readers s x)) \<and>
         r_locked (readers t x) = r_locked (readers s x) \<and>
         r_parent (readers t x) = r_parent (readers s x) \<and>
         r_mutex (readers t x) = r_mutex (readers s x) \<and>
         o_children (owners t q) = o_children (owners s q) \<and>
         o_value (owners t q) = (if q = p then v else o_value (owners s q)) \<and>
         o_mutex (owners t q) = (if q = p then False else o_mutex (owners s q)) \<and>
         o_update (owners t q) = (if q = p then [] else o_update (owners s q)) \<and>
         r_live t = r_live s \<and> o_live t = o_live s"
proof -
  define s1 where "s1 = upd_owner s p (\<lambda>x. x\<lparr> o_mutex := True \<rparr>)"
  define m where "m = reset_mark s1 p v (o_children (owners s1 p))"
  have lock: "owner_mutex_lock s p = Some s1"
    using free by (simp add: owner_mutex_lock_def spin_eq s1_def)
  obtain r where r: "reset_wait m p v = Some r"
    and rt: "Returns t = (case r of
                            Returns s2 \<Rightarrow> Returns (owner_mutex_unlock (reset_finish s2 p v) p)
                          | Undefined \<Rightarrow> Undefined)"
    using reset lock by (auto simp: owned_ptr_reset_def m_def split: bind_splits)
  have empty: "o_update (owners m p) = []"
    and t: "t = owner_mutex_unlock (reset_finish m p v) p"
    using r rt by (auto simp: reset_wait_eq split: if_splits outcome.splits)
  have s1f: "readers s1 = readers s" "r_live s1 = r_live s" "o_live s1 = o_live s"
      "o_children (owners s1 q) = o_children (owners s q)"
      "o_children (owners s1 p) = o_children (owners s p)"
      "o_value (owners s1 q) = o_value (owners s q)"
      "q \<noteq> p \<Longrightarrow> o_update (owners s1 q) = o_update (owners s q)"
      "q \<noteq> p \<Longrightarrow> o_mutex (owners s1 q) = o_mutex (owners s q)"
    by (simp_all add: s1_def upd_owner_def)
  have mf: "r_value (readers m x) =
              (if x \<in> set (o_children (owners s p)) then v else r_value (readers s x))"
      "r_locked (readers m x) = r_locked (readers s x)"
      "r_parent (readers m x) = r_parent (readers s x)"
      "r_mutex (readers m x) = r_mutex (readers s x)"
      "o_children (owners m q) = o_children (owners s q)"
      "o_value (owners m q) = o_value (owners s q)"
      "q \<noteq> p \<Longrightarrow> o_update (owners m q) = o_update (owners s q)"
      "q \<noteq> p \<Longrightarrow> o_mutex (owners m q) = o_mutex (owners s q)"
      "r_live m = r_live s" "o_live m = o_live s"
    using reset_mark_fields[of s1 p v "o_children (owners s1 p)" x q] s1f
    by (simp_all add: m_def)
  show ?thesis
    using empty mf unfolding t
    by (auto simp: owner_mutex_unlock_def reset_finish_def delete_value_def upd_owner_def
          split: option.splits)
qed

lemma reset_ok:
  assumes inv: "consistent s" and live: "p \<in> set (o_live s)"
      and reset: "owned_ptr_reset s p v = Some (Returns t)"
  shows "consistent t"
proof -
  have free: "\<not> o_mutex (owners s p)" using inv by (simp add: consistent_def)
  note f = reset_fields[OF free reset]
  have ch: "set (o_children (owners s p)) = {r \<in> set (r_live s). r_parent (readers s r) = Some p}"
    using inv live by (simp add: consistent_def)
  show ?thesis
    unfolding consistent_def
    using inv live ch by (auto simp: f consistent_def)
qed

lemma dtor_loop_fields:
  assumes "\<forall>r. \<not> r_mutex (readers s r)" and "dtor_loop s cs = Some t"
  shows "r_value (readers t x) = (if x \<in> set cs then None else r_value (readers s x)) \<and>
         r_parent (readers t x) = (if x \<in> set cs then None else r_parent (readers s x)) \<and>
         r_locked (readers t x) = r_locked (readers s x) \<and>
         \<not> r_mutex (readers t x) \<and>
         owners t = owners s \<and> freed t = freed s \<and> r_live t = r_live s \<and> o_live t = o_live s"
  using assms
proof (induction cs arbitrary: s)
  case Nil
  then show ?case by simp
next
  case (Cons c cs)
  define s1 where
    "s1 = upd_reader s c (\<lambda>x. x\<lparr> r_value := None, r_parent := None, r_mutex := False \<rparr>)"
  have step: "r_locked (readers s c) = None \<and> dtor_loop s1 cs = Some t"
    using Cons.prems
    by (auto simp: reader_ptr_set_owner_def reader_mutex_lock_def reader_mutex_unlock_def
          spin_eq upd_reader_def s1_def split: bind_splits if_splits)
  have "\<forall>r. \<not> r_mutex (readers s1 r)"
    using Cons.prems(1) by (simp add: s1_def upd_reader_def)
  from Cons.IH[OF this] step show ?case
    by (auto simp: s1_def upd_reader_def)
qed

lemma owner_dtor_ok:
  assumes inv: "consistent s" and live: "p \<in> set (o_live s)"
      and dtor: "owned_ptr_dtor s p = Some t"
  shows "consistent t"
proof -
  define s1 where "s1 = upd_owner s p (\<lambda>x. x\<lparr> o_mutex := True \<rparr>)"
  have free: "\<not> o_mutex (owners s p)" "\<forall>r. \<not> r_mutex (readers s r)"
    using inv by (simp_all add: consistent_def)
  have lock: "owner_mutex_lock s p = Some s1"
    using free by (simp add: owner_mutex_lock_def spin_eq s1_def)
  obtain s2 where loop: "dtor_loop s1 (o_children (owners s p)) = Some s2"
    and t: "t = (owner_mutex_unlock (delete_value s2 (o_value (owners s2 p))) p)
                  \<lparr> o_live := removeAll p (o_live s2) \<rparr>"
    using dtor lock by (auto simp: owned_ptr_dtor_def s1_def upd_owner_def split: bind_splits)
  have "\<forall>r. \<not> r_mutex (readers s1 r)" using free by (simp add: s1_def upd_owner_def)
  note f = dtor_loop_fields[OF this loop]
  have ch: "set (o_children (owners s p)) = {r \<in> set (r_live s). r_parent (readers s r) = Some p}"
    using inv live by (simp add: consistent_def)
  have tf: "r_value (readers t x) =
              (if x \<in> set (o_children (owners s p)) then None else r_value (readers s x))"
      "r_parent (readers t x) =
              (if x \<in> set (o_children (owners s p)) then None else r_parent (readers s x))"
      "\<not> r_mutex (readers t x)" "r_live t = r_live s" "o_live t = removeAll p (o_live s)"
      "\<not> o_mutex (owners t q)"
      "q \<noteq> p \<Longrightarrow> owners t q = owners s q" for x q
    using f[of x] free inv unfolding t
    by (auto simp: owner_mutex_unlock_def delete_value_def upd_owner_def s1_def consistent_def
          split: option.splits)
  show ?thesis
    unfolding consistent_def
    using inv live ch by (auto simp: tf consistent_def)
qed




lemma reader_dtor_ok:
  assumes inv: "consistent s" and live: "r \<in> set (r_live s)"
      and dtor: "reader_ptr_dtor s r = Some t"
  shows "consistent t"
proof (cases "r_parent (readers s r)")
  case None
  have free: "\<forall>p. \<not> o_mutex (owners s p)" "\<forall>r. \<not> r_mutex (readers s r)"
    using inv by (simp_all add: consistent_def)
  have t: "t = s\<lparr> readers := (readers s)(r := (readers s r)\<lparr> r_mutex := False \<rparr>),
                  r_live := removeAll r (r_live s) \<rparr>"
    using dtor None free
    by (cases s) (auto simp add: reader_ptr_dtor_def reader_mutex_lock_def reader_mutex_unlock_def spin_eq
          upd_reader_def)
  show ?thesis
    using inv live None unfolding t consistent_def by (auto simp: distinct_removeAll)
next
  case (Some q)
  have free: "\<forall>p. \<not> o_mutex (owners s p)" "\<forall>r. \<not> r_mutex (readers s r)"
    using inv by (simp_all add: consistent_def)
  have qlive: "q \<in> set (o_live s)" and rq: "r \<in> set (o_children (owners s q))"
    using inv live Some by (auto simp: consistent_def)
  then obtain c rest where ch: "o_children (owners s q) = c # rest"
    by (cases "o_children (owners s q)") auto
  have cr: "c = r \<and> r_locked (readers s r) \<noteq> None"
    using dtor Some free ch
    by (auto simp: reader_ptr_dtor_def owner_mutex_lock_def
          owned_ptr_remove_def reader_mutex_lock_def spin_eq remove_loop_eq
          upd_owner_def upd_reader_def split: bind_splits if_splits)
  have t: "t = s\<lparr> readers := (readers s)(r := (readers s r)\<lparr> r_mutex := False \<rparr>),
                  owners := (owners s)(q := (owners s q)\<lparr> o_children := rest, o_mutex := False \<rparr>),
                  r_live := removeAll r (r_live s) \<rparr>"
    using dtor Some free ch cr
    by (cases s) (auto simp add: reader_ptr_dtor_def owner_mutex_lock_def
          owner_mutex_unlock_def reader_mutex_lock_def reader_mutex_unlock_def spin_eq
          owned_ptr_remove_def remove_loop_eq erase_at_def
          upd_owner_def upd_reader_def)
  have "distinct (o_children (owners s q)) \<and>
        set (o_children (owners s q)) = {x \<in> set (r_live s). r_parent (readers s x) = Some q}"
    using inv qlive by (simp add: consistent_def)
  then have rest: "distinct rest" "r \<notin> set rest"
      "\<forall>x. (x \<in> set rest) = (x \<noteq> r \<and> x \<in> set (r_live s) \<and> r_parent (readers s x) = Some q)"
    using ch cr by auto
  show ?thesis
    using inv live Some qlive rest unfolding t consistent_def by (auto simp: distinct_removeAll)
qed

lemma attach_new_ok:
  assumes inv: "consistent s" and live: "p \<in> set (o_live s)" and new: "r \<notin> set (r_live s)"
      and get: "reader_ptr_ctor_owner s r p = Some t"
  shows "consistent t"
proof -
  have "consistent (reader_ptr_ctor s r)" using inv new by (rule new_reader_ok)
  moreover have "p \<in> set (o_live (reader_ptr_ctor s r))" "r \<in> set (r_live (reader_ptr_ctor s r))"
    using live by (simp_all add: reader_ptr_ctor_def)
  ultimately show ?thesis
    using get get_ok[of "reader_ptr_ctor s r" p r t] by (simp add: reader_ptr_ctor_owner_def)
qed

lemma copy_ok:
  assumes inv: "consistent s" and live: "other \<in> set (r_live s)" and new: "r \<notin> set (r_live s)"
      and copy: "reader_ptr_copy s r other = Some t"
  shows "consistent t"
proof (cases "r_parent (readers s other)")
  case None
  have free: "\<forall>p. \<not> o_mutex (owners s p)" "\<forall>r. \<not> r_mutex (readers s r)"
    using inv by (simp_all add: consistent_def)
  have ne: "other \<noteq> r" using live new by auto
  have t: "t = s\<lparr> r_live := r_live s @ [r],
                  readers := (readers s)
                    (r := \<lparr> r_value = None, r_locked = None, r_mutex = False, r_parent = None \<rparr>,
                     other := (readers s other)\<lparr> r_mutex := False \<rparr>) \<rparr>"
    using copy None free ne
    by (cases s) (auto simp add: reader_ptr_copy_def reader_ptr_ctor_def reader_mutex_lock_def
          reader_mutex_unlock_def spin_eq upd_reader_def)
  show ?thesis
    using inv live new None ne unfolding t consistent_def by auto
next
  case (Some p)
  have free: "\<forall>p. \<not> o_mutex (owners s p)" "\<forall>r. \<not> r_mutex (readers s r)"
    using inv by (simp_all add: consistent_def)
  have ne: "other \<noteq> r" using live new by auto
  have plive: "p \<in> set (o_live s)" using inv live Some by (auto simp: consistent_def)
  have t: "t = s\<lparr> r_live := r_live s @ [r],
                  owners := (owners s)(p := (owners s p)\<lparr> o_children := o_children (owners s p) @ [r],
                                   o_mutex := False \<rparr>),
                  readers := (readers s)
                    (r := \<lparr> r_value = o_value (owners s p), r_locked = None, r_mutex = False,
                             r_parent = Some p \<rparr>,
                     other := (readers s other)\<lparr> r_mutex := False \<rparr>) \<rparr>"
    using copy Some free ne
    by (cases s) (auto simp add: reader_ptr_copy_def reader_ptr_ctor_def reader_mutex_lock_def
          reader_mutex_unlock_def spin_eq upd_reader_def owned_ptr_get_def
          reader_ptr_set_owner_def owner_mutex_lock_def owner_mutex_unlock_def upd_owner_def)
  show ?thesis
    using inv live new Some ne plive unfolding t consistent_def by auto
qed

lemma exec_op_ok:
  assumes "consistent s" and "exec_op s x = Some t"
  shows "consistent t"
proof (cases x)
  case (New_owner p v)
  then show ?thesis using assms new_owner_ok[of s p v] by (auto split: if_splits)
next
  case (Delete_owner p)
  then show ?thesis using assms owner_dtor_ok[of s p t] by (auto split: if_splits)
next
  case (Get p r)
  then show ?thesis using assms get_ok[of s p r t] by (auto split: if_splits)
next
  case (Reset p v)
  then show ?thesis
    using assms reset_ok[of s p v t] by (auto split: if_splits option.splits outcome.splits)
next
  case (Count p)
  then show ?thesis using assms count_ok[of s p t] by (auto split: if_splits)
next
  case (New_reader r)
  then show ?thesis using assms new_reader_ok[of s r] by (auto split: if_splits)
next
  case (New_reader_of r p)
  then show ?thesis using assms attach_new_ok[of s p r t] by (auto split: if_splits)
next
  case (Copy_reader r other)
  then show ?thesis using assms copy_ok[of s other r t] by (auto split: if_splits)
next
  case (Delete_reader r)
  then show ?thesis using assms reader_dtor_ok[of s r t] by (auto split: if_splits)
next
  case (Lock r)
  then show ?thesis using assms lock_ok[of s r] by (auto split: if_splits)
next
  case (Unlock r)
  then show ?thesis using assms unlock_ok[of s r] by (auto split: if_splits)
qed

lemma exec_ok:
  assumes "consistent s" and "exec s xs = Some t"
  shows "consistent t"
  using assms
proof (induction xs arbitrary: s)
  case Nil
  then show ?case by simp
next
  case (Cons x xs)
  from Cons.prems(2) obtain s1 where s1: "exec_op s x = Some s1" and rest: "exec s1 xs = Some t"
    by (auto split: bind_splits)
  have "consistent s1" using Cons.prems(1) s1 exec_op_ok[of s x s1] by simp
  then show ?case using Cons.IH[of s1] rest by simp
qed

lemma consistent_count:
  assumes "consistent s" and "p \<in> set (o_live s)"
  shows "map_option snd (owned_ptr_count s p) = Some (attached_count s p)"
proof -
  have d: "distinct (o_children (owners s p))" "distinct (r_live s)"
    and ch: "set (o_children (owners s p)) = {r \<in> set (r_live s). r_parent (readers s r) = Some p}"
    and free: "\<not> o_mutex (owners s p)"
    using assms by (simp_all add: consistent_def)
  have "length (o_children (owners s p)) = card (set (o_children (owners s p)))"
    using d(1) by (simp add: distinct_card)
  also have "\<dots> = card (set (filter (\<lambda>r. r_parent (readers s r) = Some p) (r_live s)))"
    using ch by simp
  also have "\<dots> = attached_count s p"
    unfolding attached_count_def
    using d(2) distinct_card[of "filter (\<lambda>r. r_parent (readers s r) = Some p) (r_live s)"]
    by simp
  finally show ?thesis
    using free by (simp add: owned_ptr_count_def owner_mutex_lock_def spin_eq upd_owner_def)
qed


section \<open>The claims\<close>



text \<open>
  C2 asks that \<open>reset\<close> never free the old value while a reader holds it. Two runs free it.

  In \<open>prog_reattach\<close> reader 0 holds 10, the value of owner 0, and \<open>owner1.get(reader0)\<close>
  has taken it out of the registry of owner 0 while it was locked. \<open>owner0.reset(p20)\<close>
  in \<open>prog_reattach_reset\<close> then finds only reader 1 in the registry, which is not
  locked, and frees 10 while reader 0 still holds it.

  In \<open>race_run\<close> reader 0 is in the registry and not locked when \<open>reset(p20)\<close> starts, but
  has loaded \<open>value_\<close> = 10 in \<open>lock()\<close>. The first loop finds \<open>locked_\<close> null and leaves
  \<open>update_\<close> empty; \<open>lock()\<close> stores 10 to \<open>locked_\<close> and returns it; \<open>reset\<close> frees 10 and
  returns, with reader 0 in the registry and holding 10.
\<close>

theorem reset_frees_value_in_use:
  "prog_reattach \<noteq> None \<and>
   o_value (owners (the prog_reattach) 0) = Some 10 \<and>
   o_children (owners (the prog_reattach) 0) = [1] \<and>
   r_locked (readers (the prog_reattach) 0) = Some 10 \<and>
   10 \<notin> freed (the prog_reattach) \<and>
   prog_reattach_reset \<noteq> None \<and>
   10 \<in> freed (the prog_reattach_reset) \<and>
   r_live (the prog_reattach_reset) = [0, 1] \<and>
   r_locked (readers (the prog_reattach_reset) 0) = Some 10 \<and>
   prog_attach \<noteq> None \<and>
   o_children (owners (the prog_attach) 0) = [0] \<and>
   r_locked (readers (the prog_attach) 0) = None \<and>
   10 \<notin> freed (the prog_attach) \<and>
   fst (snd race_run) = Done \<and>
   10 \<in> freed (fst race_run) \<and>
   o_value (owners (fst race_run) 0) = Some 20 \<and>
   o_children (owners (fst race_run) 0) = [0] \<and>
   r_locked (readers (fst race_run) 0) = Some 10"
  by (simp add: prog_defs race_run_def no_loads_def run_defs)

text \<open>
  C3 asks that \<open>remove_\<close> wait while the reader is in use and erase its entry only after
  \<open>unlock()\<close>. The loop in \<open>remove_\<close> is \<open>while ((*i)->locked_ == nullptr)\<close>: with the
  reader first in the registry, the call never returns when the reader is not in use, and
  when it is in use the entry is erased at once, the reader still holding its value.
\<close>

theorem remove_erases_reader_in_use:
  assumes "\<not> o_mutex (owners s this)" and "o_children (owners s this) = child # rest"
  shows "(r_locked (readers s child) = None \<longrightarrow> owned_ptr_remove s this child = None) \<and>
         (r_locked (readers s child) \<noteq> None \<longrightarrow>
            (\<exists>t. owned_ptr_remove s this child = Some t \<and> o_children (owners t this) = rest \<and>
                 r_locked (readers t child) = r_locked (readers s child)))"
  using assms
  by (simp add: owned_ptr_remove_def owner_mutex_lock_def owner_mutex_unlock_def spin_eq
        remove_loop_eq upd_owner_def erase_at_def)

text \<open>
  At \<open>prog_attach\<close> with reader 0 locked, \<open>remove_\<close> erases the entry and reader 0 still
  holds 10; with reader 0 not locked, \<open>remove_\<close> and the destructor of reader 0 never
  return. In \<open>prog_reattach\<close>, \<open>owner1.get(reader0)\<close> has erased the locked reader 0 from
  the registry of owner 0, and reader 0 still holds 10.
\<close>

theorem remove_erases_reader_in_use_witness:
  "prog_attach \<noteq> None \<and>
   \<not> o_mutex (owners (fst (reader_ptr_lock (the prog_attach) 0)) 0) \<and>
   o_children (owners (fst (reader_ptr_lock (the prog_attach) 0)) 0) = [0] \<and>
   r_locked (readers (fst (reader_ptr_lock (the prog_attach) 0)) 0) = Some 10 \<and>
   owned_ptr_remove (fst (reader_ptr_lock (the prog_attach) 0)) 0 0 \<noteq> None \<and>
   o_children (owners (the (owned_ptr_remove (fst (reader_ptr_lock (the prog_attach) 0)) 0 0)) 0) = [] \<and>
   r_locked (readers (the (owned_ptr_remove (fst (reader_ptr_lock (the prog_attach) 0)) 0 0)) 0) = Some 10 \<and>
   r_locked (readers (the prog_attach) 0) = None \<and>
   owned_ptr_remove (the prog_attach) 0 0 = None \<and>
   reader_ptr_dtor (the prog_attach) 0 = None \<and>
   prog_reattach \<noteq> None \<and>
   o_children (owners (the prog_reattach) 0) = [1] \<and>
   r_locked (readers (the prog_reattach) 0) = Some 10"
  using remove_erases_reader_in_use[of "fst (reader_ptr_lock (the prog_attach) 0)" 0 0 "[]"]
        remove_erases_reader_in_use[of "the prog_attach" 0 0 "[]"]
  by (simp add: prog_defs run_defs)

text \<open>
  C5: take any program that runs to its end, and the store \<open>s\<close> it ends in. For every live
  owner, \<open>count()\<close> returns the number of live readers whose \<open>parent_\<close> is this owner. The
  calls of a program are the constructors and destructors of owners and readers, the copy
  constructor included, and \<open>get\<close>, \<open>reset\<close>, \<open>count\<close>, \<open>lock\<close> and \<open>unlock\<close>.
\<close>

theorem count_is_attached_count:
  assumes "exec heap0 xs = Some s"
  shows "\<forall>p \<in> set (o_live s). map_option snd (owned_ptr_count s p) = Some (attached_count s p)"
  using consistent_count[OF exec_ok[OF consistent_heap0 assms]] by blast

text \<open>
  In example.cpp \<open>count()\<close> is 3 after the third reader is copy-constructed, and the three
  live readers have owner 0 as \<open>parent_\<close>. At the end of \<open>prog_reattach\<close>, where reader 0
  has gone from owner 0 to owner 1, \<open>count()\<close> is 1 for both owners. After
  \<open>owned_ptr owner0(p10); reader_ptr reader0; owner0.get(reader0); reader0.lock();\<close> and
  the destructor of reader 0, \<open>count()\<close> of owner 0 is 0.
\<close>

theorem count_is_attached_count_witness:
  "exec heap0 (take 8 example_cpp) \<noteq> None \<and>
   o_live (the (exec heap0 (take 8 example_cpp))) = [0] \<and>
   r_live (the (exec heap0 (take 8 example_cpp))) = [0, 1, 2] \<and>
   r_parent (readers (the (exec heap0 (take 8 example_cpp))) 0) = Some 0 \<and>
   r_parent (readers (the (exec heap0 (take 8 example_cpp))) 1) = Some 0 \<and>
   r_parent (readers (the (exec heap0 (take 8 example_cpp))) 2) = Some 0 \<and>
   attached_count (the (exec heap0 (take 8 example_cpp))) 0 = 3 \<and>
   map_option snd (owned_ptr_count (the (exec heap0 (take 8 example_cpp))) 0) = Some 3 \<and>
   prog_reattach \<noteq> None \<and>
   o_live (the prog_reattach) = [0, 1] \<and>
   r_live (the prog_reattach) = [0, 1] \<and>
   r_parent (readers (the prog_reattach) 0) = Some 1 \<and>
   r_parent (readers (the prog_reattach) 1) = Some 0 \<and>
   map_option snd (owned_ptr_count (the prog_reattach) 0) = Some 1 \<and>
   map_option snd (owned_ptr_count (the prog_reattach) 1) = Some 1 \<and>
   exec heap0 [New_owner 0 (Some 10), New_reader 0, Get 0 0, Lock 0, Delete_reader 0] \<noteq> None \<and>
   o_live (the (exec heap0 [New_owner 0 (Some 10), New_reader 0, Get 0 0, Lock 0, Delete_reader 0])) =
     [0] \<and>
   r_live (the (exec heap0 [New_owner 0 (Some 10), New_reader 0, Get 0 0, Lock 0, Delete_reader 0])) =
     [] \<and>
   map_option snd (owned_ptr_count
     (the (exec heap0 [New_owner 0 (Some 10), New_reader 0, Get 0 0, Lock 0, Delete_reader 0])) 0) =
     Some 0"
  using count_is_attached_count[of "take 8 example_cpp" "the (exec heap0 (take 8 example_cpp))"]
        count_is_attached_count[of
          "[New_owner 0 (Some 10), New_reader 0, Get 0 0, New_reader_of 1 0, Lock 0,
            New_owner 1 (Some 30), Get 1 0]" "the prog_reattach"]
        count_is_attached_count[of
          "[New_owner 0 (Some 10), New_reader 0, Get 0 0, Lock 0, Delete_reader 0]"
          "the (exec heap0 [New_owner 0 (Some 10), New_reader 0, Get 0 0, Lock 0, Delete_reader 0])"]
  by (simp add: example_cpp_def prog_defs attached_count_def run_defs)

text \<open>
  C6 asks that a reader that holds the old value when \<open>reset\<close> is called keep it until it
  unlocks, and get the new value from its next \<open>lock()\<close>. In \<open>prog_locked\<close> reader 0 is in
  the registry of owner 0 and holds 10. In \<open>waiting_run\<close> the call \<open>reset(p20)\<close> has put
  reader 0 into \<open>update_\<close> and run over \<open>update_\<close> once: reader 0 holds 10 and nothing is
  freed. In \<open>unlock_run\<close> reader 0 then calls \<open>unlock()\<close>: \<open>reset\<close> erases its entry from
  \<open>update_\<close> and increments the invalidated iterator, with 10 not freed and 20 not yet the
  value of owner 0. No later \<open>lock()\<close> is defined. Without the \<open>unlock()\<close> the call
  \<open>reset(p20)\<close> never returns, and \<open>reset(p10)\<close>, to the value the reader holds, reaches
  the same erase on its own. A reader that is not locked when \<open>reset(p20)\<close> is called gets
  20 from its next \<open>lock()\<close>, in \<open>prog_reset\<close>.
\<close>

theorem reset_is_undefined_after_unlock:
  "prog_locked \<noteq> None \<and>
   o_children (owners (the prog_locked) 0) = [0] \<and>
   r_locked (readers (the prog_locked) 0) = Some 10 \<and>
   fst (snd waiting_run) = Check \<and>
   o_update (owners (fst waiting_run) 0) = [0] \<and>
   r_locked (readers (fst waiting_run) 0) = Some 10 \<and>
   freed (fst waiting_run) = {} \<and>
   fst (snd unlock_run) = Crashed \<and>
   r_locked (readers (fst unlock_run) 0) = None \<and>
   freed (fst unlock_run) = {} \<and>
   o_value (owners (fst unlock_run) 0) = Some 10 \<and>
   owned_ptr_reset (the prog_locked) 0 (Some 20) = None \<and>
   owned_ptr_reset (the prog_locked) 0 (Some 10) = Some Undefined \<and>
   prog_reset \<noteq> None \<and>
   snd (reader_ptr_lock (the prog_reset) 0) = Some 20 \<and>
   10 \<in> freed (the prog_reset)"
  by (simp add: prog_defs unlock_run_def waiting_run_def no_loads_def run_defs)

text \<open>
  C7 asks that \<open>try_lock(timeout)\<close> return \<open>nullptr\<close> instead of blocking when the mutex
  cannot be taken within the timeout. The loop goes on while \<open>now + timeout < time(nullptr)\<close>,
  that is while the deadline has passed. With the mutex of child 0 held: on \<open>clock_ticks\<close>
  and timeout 0 the call never returns; on \<open>clock_steady\<close> and timeout 5 it returns
  \<open>nullptr\<close> after one attempt. With the mutex free it returns the owner's value.
\<close>

theorem try_lock_spins_past_deadline:
  "child_prog_locked \<noteq> None \<and>
   c_mutex (children (fst (the child_prog_locked)) 0) \<and>
   child_ptr_try_lock clock_ticks 0 (fst (the child_prog_locked)) 0 = None \<and>
   child_ptr_try_lock clock_steady 5 (fst (the child_prog_locked)) 0 =
     Some (fst (the child_prog_locked), None) \<and>
   map_option snd (child_ptr_try_lock clock_steady 5 (the child_prog) 0) = Some (Some 3)"
proof -
  have held: "child_prog_locked \<noteq> None \<and> c_mutex (children (fst (the child_prog_locked)) 0)"
    by (simp add: prog_defs child_defs)
  have "try_lock_loop clock_ticks (clock_ticks 0) 0 (fst (the child_prog_locked)) 0 1 = None"
    using held by (intro try_lock_loop_forever) (simp_all add: clock_ticks_def)
  then have forever: "child_ptr_try_lock clock_ticks 0 (fst (the child_prog_locked)) 0 = None"
    by (simp add: child_ptr_try_lock_def)
  have gives_up: "child_ptr_try_lock clock_steady 5 (fst (the child_prog_locked)) 0 =
                    Some (fst (the child_prog_locked), None)"
    unfolding child_ptr_try_lock_def using held
    by (subst try_lock_loop.simps) (simp add: clock_steady_def)
  have free: "map_option snd (child_ptr_try_lock clock_steady 5 (the child_prog) 0) = Some (Some 3)"
    unfolding child_ptr_try_lock_def
    by (subst try_lock_loop.simps) (simp add: prog_defs child_defs)
  show ?thesis using held forever gives_up free by simp
qed

text \<open>
  C8: \<open>unlock()\<close> on a reader that is not locked leaves the whole store as it is, so every
  later \<open>lock()\<close>, by this reader or another, does what it would have done without it.
\<close>

theorem unlock_unlocked_is_noop:
  assumes "r_locked (readers s r) = None"
  shows "reader_ptr_unlock s r = s \<and> reader_ptr_lock (reader_ptr_unlock s r) r' = reader_ptr_lock s r'"
proof -
  have "(readers s r)\<lparr> r_locked := None \<rparr> = readers s r"
    using assms by (cases "readers s r") simp
  then have "reader_ptr_unlock s r = s"
    by (simp add: reader_ptr_unlock_def upd_reader_def)
  then show ?thesis by simp
qed

theorem unlock_unlocked_is_noop_witness:
  "prog_attach \<noteq> None \<and>
   r_locked (readers (the prog_attach) 0) = None \<and>
   reader_ptr_unlock (the prog_attach) 0 = the prog_attach \<and>
   snd (reader_ptr_lock (reader_ptr_unlock (the prog_attach) 0) 0) = Some 10"
  using unlock_unlocked_is_noop[of "the prog_attach" 0 0]
  by (simp add: prog_defs run_defs)

text \<open>
  C9 asks that the owner's mutex be held while a child is locked, so that no other child
  of the owner completes \<open>lock()\<close>. \<open>lock()\<close> takes the mutex of the child only. In
  \<open>child_prog_locked\<close> child 0 has locked and got the value 3; the mutex of owner 0 is
  free, and \<open>child1.lock()\<close> returns 3 as well. \<open>child0.unlock()\<close> then releases the
  mutex of child 0 and leaves the mutex of owner 0 free, as it was all along.
\<close>

theorem lock_leaves_owner_mutex_free:
  "child_prog_locked \<noteq> None \<and> snd (the child_prog_locked) = Some 3 \<and>
   c_locked (children (fst (the child_prog_locked)) 0) \<and>
   c_parent (children (fst (the child_prog_locked)) 0) = Some 0 \<and>
   c_parent (children (fst (the child_prog_locked)) 1) = Some 0 \<and>
   \<not> x_mutex (xowners (fst (the child_prog_locked)) 0) \<and>
   map_option snd (child_ptr_lock (fst (the child_prog_locked)) 1) = Some (Some 3) \<and>
   child_ptr_unlock (fst (the child_prog_locked)) 0 \<noteq> None \<and>
   \<not> c_mutex (children (the (child_ptr_unlock (fst (the child_prog_locked)) 0)) 0) \<and>
   \<not> c_locked (children (the (child_ptr_unlock (fst (the child_prog_locked)) 0)) 0) \<and>
   \<not> x_mutex (xowners (the (child_ptr_unlock (fst (the child_prog_locked)) 0)) 0)"
  by (simp add: prog_defs child_defs)

text \<open>
  C10, as the code has it. In the three search loops the iterator is never advanced. With
  the owner's mutex free, \<open>replace_\<close> of the shared-read header and \<open>remove_\<close> of the
  exclusive-lock header return exactly when the registry is empty or its first entry is
  the reader looked for. \<open>remove_\<close> of the shared-read header returns when the registry is
  empty, and it can return only if the registry is empty or its first entry is the reader
  looked for. So in all three, a registry whose first entry is another reader makes the
  call run forever.
\<close>

theorem search_loops_return_iff:
  assumes "\<not> o_mutex (owners s p)" and "\<not> x_mutex (xowners t q)"
  shows "((owned_ptr_replace s p reader w \<noteq> None) =
            (o_children (owners s p) = [] \<or> hd (o_children (owners s p)) = reader)) \<and>
         ((child_owned_ptr_remove t q c \<noteq> None) =
            (x_children (xowners t q) = [] \<or> hd (x_children (xowners t q)) = c)) \<and>
         (owned_ptr_remove s p reader \<noteq> None \<longrightarrow>
            o_children (owners s p) = [] \<or> hd (o_children (owners s p)) = reader) \<and>
         (o_children (owners s p) = [] \<longrightarrow> owned_ptr_remove s p reader \<noteq> None)"
proof -
  have a: "(owned_ptr_replace s p reader w \<noteq> None) =
            (o_children (owners s p) = [] \<or> hd (o_children (owners s p)) = reader)"
    using assms(1)
    by (cases "o_children (owners s p)")
       (simp_all add: owned_ptr_replace_def owner_mutex_lock_def spin_eq replace_loop_eq upd_owner_def)
  have b: "(child_owned_ptr_remove t q c \<noteq> None) =
            (x_children (xowners t q) = [] \<or> hd (x_children (xowners t q)) = c)"
    using assms(2)
    by (cases "x_children (xowners t q)")
       (simp_all add: child_owned_ptr_remove_def xowner_mutex_lock_def spin_eq
          child_remove_loop_eq upd_xowner_def)
  have c: "(owned_ptr_remove s p reader \<noteq> None) =
            (o_children (owners s p) = [] \<or>
             (hd (o_children (owners s p)) = reader \<and> r_locked (readers s reader) \<noteq> None))"
    using assms(1)
    by (cases "o_children (owners s p)")
       (simp_all add: owned_ptr_remove_def owner_mutex_lock_def spin_eq remove_loop_eq upd_owner_def)
  show ?thesis using a b c by simp
qed

text \<open>
  In \<open>prog_reattach\<close> the registry of owner 0 is \<open>[1]\<close> and that of owner 1 is \<open>[0]\<close>; in
  \<open>child_prog\<close> the registry of owner 0 is \<open>[0, 1]\<close>; in \<open>heap0\<close> every registry is empty.
\<close>

theorem search_loops_return_iff_witness:
  "prog_reattach \<noteq> None \<and> child_prog \<noteq> None \<and>
   \<not> o_mutex (owners (the prog_reattach) 0) \<and> \<not> x_mutex (xowners (the child_prog) 0) \<and>
   o_children (owners (the prog_reattach) 0) = [1] \<and>
   o_children (owners (the prog_reattach) 1) = [0] \<and>
   x_children (xowners (the child_prog) 0) = [0, 1] \<and>
   owned_ptr_replace (the prog_reattach) 0 1 5 \<noteq> None \<and>
   owned_ptr_replace (the prog_reattach) 0 0 5 = None \<and>
   child_owned_ptr_remove (the child_prog) 0 0 \<noteq> None \<and>
   child_owned_ptr_remove (the child_prog) 0 1 = None \<and>
   owned_ptr_remove (the prog_reattach) 0 0 = None \<and>
   owned_ptr_remove (the prog_reattach) 1 0 \<noteq> None \<and>
   owned_ptr_remove heap0 0 0 \<noteq> None"
  using search_loops_return_iff[of "the prog_reattach" 0 "the child_prog" 0 1 5 0]
        search_loops_return_iff[of "the prog_reattach" 0 "the child_prog" 0 0 5 1]
        search_loops_return_iff[of "the prog_reattach" 1 "the child_prog" 0 0 5 1]
        search_loops_return_iff[of heap0 0 "the child_prog" 0 0 5 1]
  by (simp add: prog_defs run_defs child_defs)

text \<open>
  C10 as stated fails for \<open>remove_\<close> of the shared-read header, which has a wait on
  \<open>locked_\<close> of the reader in front of the \<open>erase\<close>: in \<open>prog_attach\<close> the reader looked for
  is the first entry of the registry, and the call never returns.
\<close>

theorem remove_of_first_reader_spins:
  "prog_attach \<noteq> None \<and> \<not> o_mutex (owners (the prog_attach) 0) \<and>
   o_children (owners (the prog_attach) 0) = [0] \<and>
   hd (o_children (owners (the prog_attach) 0)) = 0 \<and>
   owned_ptr_remove (the prog_attach) 0 0 = None"
  by (simp add: prog_defs run_defs)

end
